theory Spec2Isabelle
  imports Main
begin

section \<open>Characters and strings\<close>

text \<open>
  A Python \<open>str\<close> is a sequence of code points. The model uses \<open>string\<close>, reading each
  \<open>char\<close> as one code point below 256 (the Latin-1 range); on that range the character
  classes below are exactly Python's: \<open>str.isspace\<close> and the regular expression class
  \<open>\s\<close> hold for the same twelve code points, \<open>\d\<close> holds for the ten ASCII digits, and
  case folding of the ASCII letters that occur in the patterns relates only ASCII letters.
\<close>

abbreviation NL :: char where "NL \<equiv> CHR 0x0A"

definition isspace :: "char \<Rightarrow> bool" where
  "isspace c = (c \<in> set [CHR 0x09, CHR 0x0A, CHR 0x0B, CHR 0x0C, CHR 0x0D,
                          CHR 0x1C, CHR 0x1D, CHR 0x1E, CHR 0x1F, CHR 0x20,
                          CHR 0x85, CHR 0xA0])"

definition isdigit :: "char \<Rightarrow> bool" where
  "isdigit c = (c \<in> set ''0123456789'')"

definition in_range :: "char \<Rightarrow> char \<Rightarrow> char \<Rightarrow> bool" where
  "in_range lo hi c = ((of_char lo :: nat) \<le> of_char c \<and> (of_char c :: nat) \<le> of_char hi)"

text \<open>\<open>str.lower\<close> and \<open>str.upper\<close> on one code point below 256: the ASCII letters and
  the Latin-1 letters 0xC0..0xDE (without 0xD7) and 0xE0..0xFE (without 0xF7) change case;
  every other code point of the range is left as it is (0xB5 and 0xFF, whose upper case
  lies outside the range, and 0xDF included).\<close>

definition upper_letters :: string where
  "upper_letters = ''ABCDEFGHIJKLMNOPQRSTUVWXYZ'' @
     [CHR 0xC0, CHR 0xC1, CHR 0xC2, CHR 0xC3, CHR 0xC4, CHR 0xC5, CHR 0xC6, CHR 0xC7,
      CHR 0xC8, CHR 0xC9, CHR 0xCA, CHR 0xCB, CHR 0xCC, CHR 0xCD, CHR 0xCE, CHR 0xCF,
      CHR 0xD0, CHR 0xD1, CHR 0xD2, CHR 0xD3, CHR 0xD4, CHR 0xD5, CHR 0xD6, CHR 0xD8,
      CHR 0xD9, CHR 0xDA, CHR 0xDB, CHR 0xDC, CHR 0xDD, CHR 0xDE]"

definition lower_letters :: string where
  "lower_letters = ''abcdefghijklmnopqrstuvwxyz'' @
     [CHR 0xE0, CHR 0xE1, CHR 0xE2, CHR 0xE3, CHR 0xE4, CHR 0xE5, CHR 0xE6, CHR 0xE7,
      CHR 0xE8, CHR 0xE9, CHR 0xEA, CHR 0xEB, CHR 0xEC, CHR 0xED, CHR 0xEE, CHR 0xEF,
      CHR 0xF0, CHR 0xF1, CHR 0xF2, CHR 0xF3, CHR 0xF4, CHR 0xF5, CHR 0xF6, CHR 0xF8,
      CHR 0xF9, CHR 0xFA, CHR 0xFB, CHR 0xFC, CHR 0xFD, CHR 0xFE]"

definition lower_char :: "char \<Rightarrow> char" where
  "lower_char c = (case map_of (zip upper_letters lower_letters) c of None \<Rightarrow> c | Some l \<Rightarrow> l)"

definition upper_char :: "char \<Rightarrow> char" where
  "upper_char c = (case map_of (zip lower_letters upper_letters) c of None \<Rightarrow> c | Some u \<Rightarrow> u)"

definition lower :: "string \<Rightarrow> string" where
  "lower s = map lower_char s"

text \<open>\<open>str.strip()\<close> without argument: leading and trailing whitespace removed.\<close>

definition lstrip :: "string \<Rightarrow> string" where
  "lstrip s = dropWhile isspace s"

definition rstrip :: "string \<Rightarrow> string" where
  "rstrip s = rev (dropWhile isspace (rev s))"

definition strip :: "string \<Rightarrow> string" where
  "strip s = rstrip (lstrip s)"

section \<open>Errors\<close>

datatype py_error =
    ValueError string
  | AttributeError
  | FileNotFoundError string

section \<open>Integer conversion\<close>

text \<open>
  \<open>int(s)\<close> for a string, base ten: surrounding whitespace is ignored, one sign is
  allowed, then groups of digits, single underscores allowed between digits; anything
  else is a \<open>ValueError\<close>. CPython (3.11, and the security releases of the older
  branches) also refuses, with a \<open>ValueError\<close>, a string of more than
  \<open>sys.int_info.default_max_str_digits = 4300\<close> digits, unless the interpreter was
  started with another limit; below that the result is an unbounded integer. The messages
  are cut short here: CPython's go on with the text and with the number of digits. A text
  that is both malformed and too long is a \<open>ValueError\<close> with one of the two messages.
\<close>

definition int_max_str_digits :: nat where
  "int_max_str_digits = 4300"

definition invalid_literal :: py_error where
  "invalid_literal = ValueError ''invalid literal for int() with base 10''"

definition exceeds_limit :: py_error where
  "exceeds_limit = ValueError ''Exceeds the limit (4300 digits) for integer string conversion''"

definition digit_val :: "char \<Rightarrow> int" where
  "digit_val c = int (of_char c - (48::nat))"

definition digits_val :: "string \<Rightarrow> int" where
  "digits_val ds = foldl (\<lambda>acc c. 10 * acc + digit_val c) 0 ds"

fun digit_groups :: "bool \<Rightarrow> string \<Rightarrow> bool" where
  "digit_groups after_digit [] = after_digit"
| "digit_groups after_digit (c # cs) =
     (if isdigit c then digit_groups True cs
      else if c = CHR ''_'' \<and> after_digit then (cs \<noteq> [] \<and> isdigit (hd cs) \<and> digit_groups False cs)
      else False)"

definition py_int_unsigned :: "string \<Rightarrow> py_error + int" where
  "py_int_unsigned s =
     (if \<not> digit_groups False s then Inl invalid_literal
      else if length (filter isdigit s) > int_max_str_digits then Inl exceeds_limit
      else Inr (digits_val (filter isdigit s)))"

definition py_int :: "string \<Rightarrow> py_error + int" where
  "py_int s =
     (case strip s of
        [] \<Rightarrow> Inl invalid_literal
      | c # cs \<Rightarrow>
          if c = CHR ''-'' then map_sum id uminus (py_int_unsigned cs)
          else if c = CHR ''+'' then py_int_unsigned cs
          else py_int_unsigned (c # cs))"

section \<open>Regular expressions\<close>

text \<open>
  The fragment of Python's \<open>re\<close> that the program's patterns use, with the priorities
  of the backtracking matcher: the matches of a pattern at a position are listed in the
  order in which the matcher tries them, and the match it reports is the first of the list.
  A repetition applies to a single-character item, as in every pattern of the program.
\<close>

record flags =
  ignorecase :: bool
  multiline :: bool
  dotall :: bool

definition no_flags :: flags where
  "no_flags = \<lparr>ignorecase = False, multiline = False, dotall = False\<rparr>"

datatype citem = CChar char | CRange char char | CSpace | CDigit

datatype atom = Chr char | Dot | InSet "citem list" | NotInSet "citem list"

datatype rx =
    One atom
  | Rep atom nat "nat option" bool
  | Eps
  | Seq rx rx
  | Alt rx rx
  | Look rx
  | Cap rx
  | Bol
  | Eol

fun citem_match :: "citem \<Rightarrow> char \<Rightarrow> bool" where
  "citem_match (CChar x) c = (c = x)"
| "citem_match (CRange lo hi) c = in_range lo hi c"
| "citem_match CSpace c = isspace c"
| "citem_match CDigit c = isdigit c"

definition set_match :: "flags \<Rightarrow> citem list \<Rightarrow> char \<Rightarrow> bool" where
  "set_match f items c =
     (\<exists>i \<in> set items. citem_match i c \<or>
        (ignorecase f \<and> (citem_match i (lower_char c) \<or> citem_match i (upper_char c))))"

fun atom_match :: "flags \<Rightarrow> atom \<Rightarrow> char \<Rightarrow> bool" where
  "atom_match f (Chr x) c = (if ignorecase f then lower_char c = lower_char x else c = x)"
| "atom_match f Dot c = (dotall f \<or> c \<noteq> NL)"
| "atom_match f (InSet items) c = set_match f items c"
| "atom_match f (NotInSet items) c = (\<not> set_match f items c)"

text \<open>A matcher state: the character before the position (\<open>None\<close> at the start of the
  string), the text of group 1 if it has been captured, and the text from the position on.\<close>

type_synonym mstate = "char option \<times> string option \<times> string"

fun advance :: "nat \<Rightarrow> char option \<Rightarrow> string \<Rightarrow> char option \<times> string" where
  "advance 0 p s = (p, s)"
| "advance (Suc k) p [] = (p, [])"
| "advance (Suc k) p (c # cs) = advance k (Some c) cs"

text \<open>The numbers of repetitions the matcher tries for \<open>x{lo,hi}\<close> when \<open>run\<close> characters
  in a row match \<open>x\<close>: from the longest down when greedy, from the shortest up when lazy.\<close>

definition rep_counts :: "nat \<Rightarrow> nat option \<Rightarrow> bool \<Rightarrow> nat \<Rightarrow> nat list" where
  "rep_counts lo hi greedy run =
     (let top = (case hi of None \<Rightarrow> run | Some h \<Rightarrow> min h run);
          ks = [lo ..< Suc top]
      in if greedy then rev ks else ks)"

fun rmatch :: "rx \<Rightarrow> flags \<Rightarrow> mstate \<Rightarrow> mstate list" where
  "rmatch (One a) f (p, g, []) = []"
| "rmatch (One a) f (p, g, c # cs) = (if atom_match f a c then [(Some c, g, cs)] else [])"
| "rmatch (Rep a lo hi greedy) f (p, g, s) =
     map (\<lambda>k. (fst (advance k p s), g, snd (advance k p s)))
       (rep_counts lo hi greedy (length (takeWhile (atom_match f a) s)))"
| "rmatch Eps f st = [st]"
| "rmatch (Seq r1 r2) f st = concat (map (rmatch r2 f) (rmatch r1 f st))"
| "rmatch (Alt r1 r2) f st = rmatch r1 f st @ rmatch r2 f st"
| "rmatch (Look r) f st = (if rmatch r f st = [] then [] else [st])"
| "rmatch (Cap r) f (p, g, s) =
     map (\<lambda>(p', g', s'). (p', Some (take (length s - length s') s), s')) (rmatch r f (p, g, s))"
| "rmatch Bol f (p, g, s) =
     (if p = None \<or> (multiline f \<and> p = Some NL) then [(p, g, s)] else [])"
| "rmatch Eol f (p, g, s) =
     (if s = [] \<or> s = [NL] \<or> (multiline f \<and> hd s = NL) then [(p, g, s)] else [])"

text \<open>A pattern written as a sequence of items, and a literal word as such a sequence.\<close>

definition seq :: "rx list \<Rightarrow> rx" where
  "seq rs = foldr Seq rs Eps"

definition lit :: "string \<Rightarrow> rx list" where
  "lit w = map (\<lambda>c. One (Chr c)) w"

abbreviation Spaces :: "nat \<Rightarrow> rx" where
  "Spaces lo \<equiv> Rep (InSet [CSpace]) lo None True"

text \<open>A match object: \<open>group(0)\<close>, \<open>group(1)\<close> (\<open>None\<close> when the group took no part) and
  the text after the match.\<close>

record rematch =
  group0 :: string
  group1 :: "string option"
  after :: string

definition match_at :: "rx \<Rightarrow> flags \<Rightarrow> char option \<Rightarrow> string \<Rightarrow> rematch option" where
  "match_at r f p s =
     (case rmatch r f (p, None, s) of
        [] \<Rightarrow> None
      | (p', g, s') # _ \<Rightarrow>
          Some \<lparr>group0 = take (length s - length s') s, group1 = g, after = s'\<rparr>)"

fun search_from :: "rx \<Rightarrow> flags \<Rightarrow> char option \<Rightarrow> string \<Rightarrow> rematch option" where
  "search_from r f p [] = match_at r f p []"
| "search_from r f p (c # cs) =
     (case match_at r f p (c # cs) of
        Some m \<Rightarrow> Some m
      | None \<Rightarrow> search_from r f (Some c) cs)"

definition re_search :: "rx \<Rightarrow> flags \<Rightarrow> string \<Rightarrow> rematch option" where
  "re_search r f s = search_from r f None s"

definition re_match :: "rx \<Rightarrow> flags \<Rightarrow> string \<Rightarrow> rematch option" where
  "re_match r f s = match_at r f None s"

text \<open>
  \<open>re.split\<close> for a pattern without groups and \<open>re.finditer\<close>: the string is scanned from
  left to right, a position inside the previous match is skipped (\<open>skip\<close> counts the
  characters of that match still ahead), and the text between the matches makes the pieces.
\<close>

fun split_from :: "rx \<Rightarrow> flags \<Rightarrow> nat \<Rightarrow> char option \<Rightarrow> string \<Rightarrow> string \<Rightarrow> string list" where
  "split_from r f skip p [] cur = [cur]"
| "split_from r f skip p (c # cs) cur =
     (if skip > 0 then split_from r f (skip - 1) (Some c) cs cur
      else (case match_at r f p (c # cs) of
              None \<Rightarrow> split_from r f 0 (Some c) cs (cur @ [c])
            | Some m \<Rightarrow>
                if group0 m = [] then split_from r f 0 (Some c) cs (cur @ [c])
                else cur # split_from r f (length (group0 m) - 1) (Some c) cs []))"

definition re_split :: "rx \<Rightarrow> flags \<Rightarrow> string \<Rightarrow> string list" where
  "re_split r f s = split_from r f 0 None s []"

fun finditer_from :: "rx \<Rightarrow> flags \<Rightarrow> nat \<Rightarrow> char option \<Rightarrow> string \<Rightarrow> rematch list" where
  "finditer_from r f skip p [] =
     (if skip > 0 then [] else (case match_at r f p [] of None \<Rightarrow> [] | Some m \<Rightarrow> [m]))"
| "finditer_from r f skip p (c # cs) =
     (if skip > 0 then finditer_from r f (skip - 1) (Some c) cs
      else (case match_at r f p (c # cs) of
              None \<Rightarrow> finditer_from r f 0 (Some c) cs
            | Some m \<Rightarrow> m # finditer_from r f (length (group0 m) - 1) (Some c) cs))"

definition re_finditer :: "rx \<Rightarrow> flags \<Rightarrow> string \<Rightarrow> rematch list" where
  "re_finditer r f s = finditer_from r f 0 None s"


section \<open>The response parser (parser.py)\<close>

record EncodingInstance =
  doc_id :: string
  speaker_id :: string
  construct :: string
  quote :: string
  confidence :: int

subsection \<open>The patterns\<close>

text \<open>\<open>re.IGNORECASE | re.DOTALL\<close>, the flags of the field patterns, and \<open>re.IGNORECASE\<close>,
  the flag of the block split.\<close>

definition field_flags :: flags where
  "field_flags = \<lparr>ignorecase = True, multiline = False, dotall = True\<rparr>"

definition split_flags :: flags where
  "split_flags = \<lparr>ignorecase = True, multiline = False, dotall = False\<rparr>"

text \<open>\<open>(.+?)\<close>\<close>

definition lazy_any :: rx where
  "lazy_any = Cap (Rep Dot 1 None False)"

text \<open>\<open>\n(?=DOC_ID:|DOC ID:)\<close>\<close>

definition block_split_rx :: rx where
  "block_split_rx =
     seq [One (Chr NL), Look (Alt (seq (lit ''DOC_ID:'')) (seq (lit ''DOC ID:'')))]"

text \<open>\<open>DOC[_\s]?ID:\s*(.+?)(?=\n|SPEAKER|$)\<close>\<close>

definition doc_id_rx :: rx where
  "doc_id_rx =
     seq (lit ''DOC'' @ [Rep (InSet [CChar CHR ''_'', CSpace]) 0 (Some 1) True] @ lit ''ID:'' @
          [Spaces 0, lazy_any, Look (Alt (One (Chr NL)) (Alt (seq (lit ''SPEAKER'')) Eol))])"

text \<open>\<open>SPEAKER[_\s]?ID:\s*(.+?)(?=\n|CONSTRUCT|$)\<close>\<close>

definition speaker_id_rx :: rx where
  "speaker_id_rx =
     seq (lit ''SPEAKER'' @ [Rep (InSet [CChar CHR ''_'', CSpace]) 0 (Some 1) True] @ lit ''ID:'' @
          [Spaces 0, lazy_any, Look (Alt (One (Chr NL)) (Alt (seq (lit ''CONSTRUCT'')) Eol))])"

text \<open>\<open>CONSTRUCT:\s*(.+?)(?=\n|QUOTE|$)\<close>\<close>

definition construct_rx :: rx where
  "construct_rx =
     seq (lit ''CONSTRUCT:'' @
          [Spaces 0, lazy_any, Look (Alt (One (Chr NL)) (Alt (seq (lit ''QUOTE'')) Eol))])"

text \<open>\<open>QUOTE:\s*(.+?)(?=\n(?:CONFIDENCE|DOC)|$)\<close>\<close>

definition quote_rx :: rx where
  "quote_rx =
     seq (lit ''QUOTE:'' @
          [Spaces 0, lazy_any,
           Look (Alt (Seq (One (Chr NL)) (Alt (seq (lit ''CONFIDENCE'')) (seq (lit ''DOC'')))) Eol)])"

text \<open>\<open>CONFIDENCE:\s*(\d+)\<close>\<close>

definition confidence_rx :: rx where
  "confidence_rx =
     seq (lit ''CONFIDENCE:'' @ [Spaces 0, Cap (Rep (InSet [CDigit]) 1 None True)])"

text \<open>\<open>\d+\<close>, the fallback search inside a confidence text that \<open>int\<close> refused.\<close>

definition digits_rx :: rx where
  "digits_rx = Rep (InSet [CDigit]) 1 None True"

text \<open>The dictionary \<open>patterns\<close>, in its insertion order.\<close>

definition patterns :: "(string \<times> rx) list" where
  "patterns =
     [(''doc_id'', doc_id_rx),
      (''speaker_id'', speaker_id_rx),
      (''construct'', construct_rx),
      (''quote'', quote_rx),
      (''confidence'', confidence_rx)]"

subsection \<open>\<open>_parse_block\<close>\<close>

text \<open>The loop that fills \<open>values\<close>: a field whose pattern matches gets the stripped text
  of group 1; \<open>strip\<close> on a group that took no part in the match would be an
  \<open>AttributeError\<close>.\<close>

fun collect_values ::
  "(string \<times> rx) list \<Rightarrow> string \<Rightarrow> (string \<rightharpoonup> string) \<Rightarrow> py_error + (string \<rightharpoonup> string)" where
  "collect_values [] block vals = Inr vals"
| "collect_values ((field, pattern) # ps) block vals =
     (case re_search pattern field_flags block of
        None \<Rightarrow> collect_values ps block vals
      | Some m \<Rightarrow>
          (case group1 m of
             None \<Rightarrow> Inl AttributeError
           | Some g \<Rightarrow> collect_values ps block (vals(field \<mapsto> strip g))))"

text \<open>The conversion of the confidence text: \<open>int\<close>, and in the handler of its
  \<open>ValueError\<close> a second \<open>int\<close>, outside any \<open>try\<close>, on the first run of digits.\<close>

definition parse_confidence :: "(string \<rightharpoonup> string) \<Rightarrow> py_error + int" where
  "parse_confidence vals =
     (case vals ''confidence'' of
        None \<Rightarrow> Inr (- 1)
      | Some v \<Rightarrow>
          (case py_int v of
             Inr n \<Rightarrow> Inr n
           | Inl (ValueError msg) \<Rightarrow>
               (case re_search digits_rx no_flags v of
                  None \<Rightarrow> Inr (- 1)
                | Some num_match \<Rightarrow> py_int (group0 num_match))
           | Inl e \<Rightarrow> Inl e))"

definition get_or :: "(string \<rightharpoonup> string) \<Rightarrow> string \<Rightarrow> string \<Rightarrow> string" where
  "get_or vals k dflt = (case vals k of None \<Rightarrow> dflt | Some v \<Rightarrow> v)"

definition parse_block :: "string \<Rightarrow> string \<Rightarrow> py_error + EncodingInstance option" where
  "parse_block block default_doc_id =
     (case collect_values patterns block Map.empty of
        Inl e \<Rightarrow> Inl e
      | Inr vals \<Rightarrow>
          if vals ''construct'' = None then Inr None
          else (case parse_confidence vals of
                  Inl e \<Rightarrow> Inl e
                | Inr c \<Rightarrow>
                    Inr (Some \<lparr>doc_id = get_or vals ''doc_id'' default_doc_id,
                               speaker_id = get_or vals ''speaker_id'' [],
                               construct = get_or vals ''construct'' [],
                               quote = get_or vals ''quote'' [],
                               confidence = c\<rparr>)))"

subsection \<open>\<open>parse_response\<close>\<close>

fun parse_loop ::
  "string list \<Rightarrow> string \<Rightarrow> EncodingInstance list \<Rightarrow> py_error + EncodingInstance list" where
  "parse_loop [] default_doc_id instances = Inr instances"
| "parse_loop (block # blocks) default_doc_id instances =
     (if strip block = [] then parse_loop blocks default_doc_id instances
      else (case parse_block block default_doc_id of
              Inl e \<Rightarrow> Inl e
            | Inr None \<Rightarrow> parse_loop blocks default_doc_id instances
            | Inr (Some instance) \<Rightarrow>
                if construct instance \<noteq> [] then
                  parse_loop blocks default_doc_id
                    (instances @
                       [if default_doc_id \<noteq> [] then instance\<lparr>doc_id := default_doc_id\<rparr>
                        else instance])
                else parse_loop blocks default_doc_id instances))"

definition parse_response :: "string \<Rightarrow> string \<Rightarrow> py_error + EncodingInstance list" where
  "parse_response response_text default_doc_id =
     parse_loop (re_split block_split_rx split_flags response_text) default_doc_id []"

subsection \<open>Patterns that always fill group 1\<close>

text \<open>A pattern of which every match has passed through the capturing group.\<close>

fun sets_group :: "rx \<Rightarrow> bool" where
  "sets_group (Cap r) = True"
| "sets_group (Seq r1 r2) = (sets_group r1 \<or> sets_group r2)"
| "sets_group r = False"


subsection \<open>Labels in a text\<close>

text \<open>A text that begins with a label, whatever the case of its letters.\<close>

definition has_label :: "string \<Rightarrow> string \<Rightarrow> bool" where
  "has_label w s = (map lower_char (take (length w) s) = map lower_char w)"

text \<open>The specification speaks of the text that follows the \<open>CONFIDENCE\<close> label and of the
  run of digits it begins with. In its words: the digits that follow the label and the
  whitespace after it, at the first place of the block where the label is followed by
  a digit.\<close>

definition digits_after_label :: "string \<Rightarrow> string" where
  "digits_after_label s =
     takeWhile isdigit (dropWhile isspace (drop (length ''CONFIDENCE:'') s))"

fun spec_confidence_digits :: "string \<Rightarrow> string" where
  "spec_confidence_digits [] = []"
| "spec_confidence_digits (c # cs) =
     (if has_label ''CONFIDENCE:'' (c # cs) \<and> digits_after_label (c # cs) \<noteq> []
      then digits_after_label (c # cs)
      else spec_confidence_digits cs)"


section \<open>Facts about the character classes\<close>

text \<open>Changing the case of a character never makes or unmakes a space, a digit or an
  underscore, so \<open>re.IGNORECASE\<close> has no effect on \<open>\s\<close>, \<open>\d\<close> and \<open>[_\s]\<close>.\<close>

lemma isspace_lower [simp]: "isspace (lower_char c) = isspace c"
  unfolding lower_char_def upper_letters_def lower_letters_def
  by (simp add: isspace_def)

lemma isspace_upper [simp]: "isspace (upper_char c) = isspace c"
  unfolding upper_char_def upper_letters_def lower_letters_def
  by (simp add: isspace_def)

lemma isdigit_lower [simp]: "isdigit (lower_char c) = isdigit c"
  unfolding lower_char_def upper_letters_def lower_letters_def
  by (simp add: isdigit_def)

lemma isdigit_upper [simp]: "isdigit (upper_char c) = isdigit c"
  unfolding upper_char_def upper_letters_def lower_letters_def
  by (simp add: isdigit_def)

lemma underscore_lower [simp]: "lower_char c = CHR ''_'' \<longleftrightarrow> c = CHR ''_''"
  unfolding lower_char_def upper_letters_def lower_letters_def
  by (simp split: if_splits)

lemma underscore_upper [simp]: "upper_char c = CHR ''_'' \<longleftrightarrow> c = CHR ''_''"
  unfolding upper_char_def upper_letters_def lower_letters_def
  by (simp split: if_splits)

lemma set_match_space [simp]: "set_match f [CSpace] c = isspace c"
  by (auto simp add: set_match_def)

lemma set_match_digit [simp]: "set_match f [CDigit] c = isdigit c"
  by (auto simp add: set_match_def)

lemma set_match_sep [simp]:
  "set_match f [CChar CHR ''_'', CSpace] c = (c = CHR ''_'' \<or> isspace c)"
  by (auto simp add: set_match_def)

text \<open>The characters that match, without regard to case, the characters of the labels.\<close>

lemma ci_letters:
  "lower_char c = lower_char CHR ''A'' \<longleftrightarrow> c = CHR ''A'' \<or> c = CHR ''a''"
  "lower_char c = lower_char CHR ''C'' \<longleftrightarrow> c = CHR ''C'' \<or> c = CHR ''c''"
  "lower_char c = lower_char CHR ''D'' \<longleftrightarrow> c = CHR ''D'' \<or> c = CHR ''d''"
  "lower_char c = lower_char CHR ''E'' \<longleftrightarrow> c = CHR ''E'' \<or> c = CHR ''e''"
  "lower_char c = lower_char CHR ''F'' \<longleftrightarrow> c = CHR ''F'' \<or> c = CHR ''f''"
  "lower_char c = lower_char CHR ''I'' \<longleftrightarrow> c = CHR ''I'' \<or> c = CHR ''i''"
  "lower_char c = lower_char CHR ''K'' \<longleftrightarrow> c = CHR ''K'' \<or> c = CHR ''k''"
  "lower_char c = lower_char CHR ''N'' \<longleftrightarrow> c = CHR ''N'' \<or> c = CHR ''n''"
  "lower_char c = lower_char CHR ''O'' \<longleftrightarrow> c = CHR ''O'' \<or> c = CHR ''o''"
  "lower_char c = lower_char CHR ''P'' \<longleftrightarrow> c = CHR ''P'' \<or> c = CHR ''p''"
  "lower_char c = lower_char CHR ''Q'' \<longleftrightarrow> c = CHR ''Q'' \<or> c = CHR ''q''"
  "lower_char c = lower_char CHR ''R'' \<longleftrightarrow> c = CHR ''R'' \<or> c = CHR ''r''"
  "lower_char c = lower_char CHR ''S'' \<longleftrightarrow> c = CHR ''S'' \<or> c = CHR ''s''"
  "lower_char c = lower_char CHR ''T'' \<longleftrightarrow> c = CHR ''T'' \<or> c = CHR ''t''"
  "lower_char c = lower_char CHR ''U'' \<longleftrightarrow> c = CHR ''U'' \<or> c = CHR ''u''"
  "lower_char c = lower_char CHR '':'' \<longleftrightarrow> c = CHR '':''"
  "lower_char c = lower_char CHR ''_'' \<longleftrightarrow> c = CHR ''_''"
  "lower_char c = lower_char CHR '' '' \<longleftrightarrow> c = CHR '' ''"
  "lower_char c = lower_char NL \<longleftrightarrow> c = NL"
  unfolding lower_char_def upper_letters_def lower_letters_def
  by (simp_all split: if_splits)

text \<open>The equations by which the patterns and the parser are evaluated on a given text.\<close>

lemmas rx_eval = re_search_def re_split_def re_match_def re_finditer_def seq_def lit_def
  match_at_def rep_counts_def isspace_def isdigit_def ci_letters no_flags_def

lemmas parser_eval = parse_response_def parse_block_def parse_confidence_def get_or_def
  patterns_def doc_id_rx_def speaker_id_rx_def construct_rx_def quote_rx_def
  confidence_rx_def digits_rx_def block_split_rx_def lazy_any_def field_flags_def
  split_flags_def strip_def lstrip_def rstrip_def py_int_def py_int_unsigned_def
  digits_val_def digit_val_def int_max_str_digits_def invalid_literal_def exceeds_limit_def

section \<open>Facts about the matcher\<close>

lemma rmatch_One: "rmatch (One a) f (p, g, s) =
    (case s of [] \<Rightarrow> [] | c # cs \<Rightarrow> if atom_match f a c then [(Some c, g, cs)] else [])"
  by (cases s) simp_all

lemma snd_advance: "snd (advance k p s) = drop k s"
  by (induction k p s rule: advance.induct) simp_all

lemma group_kept:
  "st' \<in> set (rmatch r f st) \<Longrightarrow> fst (snd st) \<noteq> None \<Longrightarrow> fst (snd st') \<noteq> None"
proof (induction r arbitrary: st st')
  case (One a)
  obtain p g s where st: "st = (p, g, s)" by (cases st)
  with One show ?case by (cases s) (simp_all split: if_splits)
next
  case (Rep a lo hi gr)
  obtain p g s where st: "st = (p, g, s)" by (cases st)
  from Rep.prems(1) obtain k where "st' = (fst (advance k p s), g, snd (advance k p s))"
    unfolding st by (simp add: image_iff) blast
  with Rep.prems(2) st show ?case by simp
next
  case Eps
  then show ?case by simp
next
  case (Seq r1 r2)
  from Seq.prems(1) obtain m where m: "m \<in> set (rmatch r1 f st)" "st' \<in> set (rmatch r2 f m)"
    by auto
  from Seq.IH(2)[OF m(2) Seq.IH(1)[OF m(1) Seq.prems(2)]] show ?case .
next
  case (Alt r1 r2)
  from Alt.prems(1) have "st' \<in> set (rmatch r1 f st) \<or> st' \<in> set (rmatch r2 f st)" by simp
  with Alt.IH Alt.prems(2) show ?case by blast
next
  case (Look r)
  from Look.prems(1) have "st' = st" by (simp split: if_splits)
  with Look.prems(2) show ?case by simp
next
  case (Cap r)
  obtain p g s where st: "st = (p, g, s)" by (cases st)
  from Cap.prems(1) obtain x :: mstate where "st' = (case x of (p', g', s') \<Rightarrow> (p', Some (take (length s - length s') s), s'))"
    unfolding st by (simp add: image_iff) blast
  then show ?case by (cases x) simp
next
  case Bol
  obtain p g s where st: "st = (p, g, s)" by (cases st)
  with Bol show ?case by (simp split: if_splits)
next
  case Eol
  obtain p g s where st: "st = (p, g, s)" by (cases st)
  with Eol show ?case by (simp split: if_splits)
qed

lemma group_set:
  "sets_group r \<Longrightarrow> st' \<in> set (rmatch r f st) \<Longrightarrow> fst (snd st') \<noteq> None"
proof (induction r arbitrary: st st')
  case (Seq r1 r2)
  from Seq.prems(2) obtain m where m: "m \<in> set (rmatch r1 f st)" "st' \<in> set (rmatch r2 f m)"
    by auto
  show ?case
  proof (cases "sets_group r2")
    case True
    from Seq.IH(2)[OF True m(2)] show ?thesis .
  next
    case False
    with Seq.prems(1) have "sets_group r1" by simp
    from Seq.IH(1)[OF this m(1)] group_kept[OF m(2)] show ?thesis by simp
  qed
next
  case (Cap r)
  obtain p g s where st: "st = (p, g, s)" by (cases st)
  from Cap.prems(2) obtain x :: mstate where "st' = (case x of (p', g', s') \<Rightarrow> (p', Some (take (length s - length s') s), s'))"
    unfolding st by (simp add: image_iff) blast
  then show ?case by (cases x) simp
qed simp_all

lemma match_at_result:
  "match_at r f p s = Some m \<Longrightarrow>
   \<exists>p' s' rest. rmatch r f (p, None, s) = (p', group1 m, s') # rest \<and>
      group0 m = take (length s - length s') s \<and> after m = s'"
  unfolding match_at_def by (auto split: list.splits)

lemma search_from_result:
  "search_from r f p s = Some m \<Longrightarrow> \<exists>p0 s0. match_at r f p0 s0 = Some m"
  by (induction r f p s rule: search_from.induct) (auto split: option.splits)

lemma re_search_group:
  assumes "sets_group r" and "re_search r f s = Some m"
  shows "group1 m \<noteq> None"
proof -
  from assms(2) obtain p0 s0 where "match_at r f p0 s0 = Some m"
    unfolding re_search_def using search_from_result by blast
  from match_at_result[OF this] obtain p' s' rest where
    "rmatch r f (p0, None, s0) = (p', group1 m, s') # rest" by blast
  then have "(p', group1 m, s') \<in> set (rmatch r f (p0, None, s0))" by simp
  from group_set[OF assms(1) this] show ?thesis by simp
qed


section \<open>Properties of the response parser\<close>

subsection \<open>The dictionary of values\<close>

text \<open>Group 1 takes part in every match of the five patterns, so \<open>match.group(1).strip()\<close>
  never meets \<open>None\<close>, and each value is the stripped capture of the leftmost match.\<close>

lemma sets_group_patterns: "\<forall>(fld, r) \<in> set patterns. sets_group r"
  by (simp add: patterns_def doc_id_rx_def speaker_id_rx_def construct_rx_def quote_rx_def
      confidence_rx_def lazy_any_def seq_def lit_def)

lemma collect_values_total:
  "\<forall>(fld, r) \<in> set ps. sets_group r \<Longrightarrow> \<exists>v. collect_values ps block vals = Inr v"
proof (induction ps arbitrary: vals)
  case Nil
  then show ?case by simp
next
  case (Cons a ps)
  obtain fld r where a: "a = (fld, r)" by (cases a)
  with Cons.prems have r: "sets_group r" and ps: "\<forall>(fld, r) \<in> set ps. sets_group r" by auto
  show ?case
  proof (cases "re_search r field_flags block")
    case None
    with a Cons.IH[OF ps] show ?thesis by simp
  next
    case (Some m)
    from re_search_group[OF r Some] obtain g where "group1 m = Some g" by auto
    with a Some Cons.IH[OF ps] show ?thesis by simp
  qed
qed

lemma collect_values_fields:
  assumes "collect_values patterns block Map.empty = Inr vals"
  shows "vals ''doc_id'' = map_option (\<lambda>m. strip (the (group1 m))) (re_search doc_id_rx field_flags block)"
    and "vals ''speaker_id'' = map_option (\<lambda>m. strip (the (group1 m))) (re_search speaker_id_rx field_flags block)"
    and "vals ''construct'' = map_option (\<lambda>m. strip (the (group1 m))) (re_search construct_rx field_flags block)"
    and "vals ''quote'' = map_option (\<lambda>m. strip (the (group1 m))) (re_search quote_rx field_flags block)"
    and "vals ''confidence'' = map_option (\<lambda>m. strip (the (group1 m))) (re_search confidence_rx field_flags block)"
  using assms unfolding patterns_def
  by (auto split: option.splits)


subsection \<open>The confidence text\<close>

text \<open>The group of the \<open>CONFIDENCE\<close> pattern is \<open>\d+\<close>: the text that reaches \<open>int\<close> is a
  non-empty run of digits, which \<open>int\<close> refuses only for its length.\<close>

lemma seq_Nil: "seq [] = Eps" and seq_Cons: "seq (r # rs) = Seq r (seq rs)"
  by (simp_all add: seq_def)

lemma seq_last_results:
  "st' \<in> set (rmatch (seq (rs @ [r])) f st) \<Longrightarrow> \<exists>m. st' \<in> set (rmatch r f m)"
proof (induction rs arbitrary: st)
  case Nil
  then have "st' \<in> set (rmatch r f st)" by (simp add: seq_Cons seq_Nil)
  then show ?case ..
next
  case (Cons a rs)
  from Cons.prems obtain m where "st' \<in> set (rmatch (seq (rs @ [r])) f m)"
    by (auto simp: seq_Cons)
  from Cons.IH[OF this] show ?case .
qed

lemma rep_counts_bounds: "k \<in> set (rep_counts lo hi gr run) \<Longrightarrow> lo \<le> k \<and> k \<le> run"
  by (auto simp: rep_counts_def Let_def split: option.splits if_splits)

lemma take_run_all:
  assumes "k \<le> length (takeWhile P s)"
  shows "\<forall>c \<in> set (take k s). P c"
proof -
  have "take k (takeWhile P s @ dropWhile P s) = take k (takeWhile P s)"
    using assms by (simp del: takeWhile_dropWhile_id)
  then have "take k s = take k (takeWhile P s)" by simp
  then have "set (take k s) \<subseteq> set (takeWhile P s)" by (simp add: set_take_subset)
  then show ?thesis by (auto dest: set_takeWhileD)
qed

lemma cap_rep_results:
  assumes "(p', g', s') \<in> set (rmatch (Cap (Rep a lo hi gr)) f (p, g, s))"
  shows "\<exists>cap. g' = Some cap \<and> lo \<le> length cap \<and> (\<forall>c \<in> set cap. atom_match f a c)"
proof -
  from assms obtain k where k: "k \<in> set (rep_counts lo hi gr (length (takeWhile (atom_match f a) s)))"
    and g': "g' = Some (take (length s - length (snd (advance k p s))) s)"
    by (auto simp: image_iff)
  from rep_counts_bounds[OF k] have b: "lo \<le> k" "k \<le> length (takeWhile (atom_match f a) s)" by auto
  have "length (takeWhile (atom_match f a) s) \<le> length s" by (rule length_takeWhile_le)
  with b have ks: "k \<le> length s" by simp
  then have "take (length s - length (snd (advance k p s))) s = take k s"
    by (simp add: snd_advance)
  with g' have "g' = Some (take k s)" by simp
  moreover from ks b have "lo \<le> length (take k s)" by simp
  moreover from take_run_all[OF b(2)] have "\<forall>c \<in> set (take k s). atom_match f a c" .
  ultimately show ?thesis by blast
qed

lemma confidence_capture:
  assumes "re_search confidence_rx f block = Some m"
  shows "\<exists>ds. group1 m = Some ds \<and> ds \<noteq> [] \<and> (\<forall>c \<in> set ds. isdigit c)"
proof -
  from assms obtain p0 s0 where "match_at confidence_rx f p0 s0 = Some m"
    unfolding re_search_def using search_from_result by blast
  from match_at_result[OF this] obtain p' s' rest where
    "rmatch confidence_rx f (p0, None, s0) = (p', group1 m, s') # rest" by blast
  then have "(p', group1 m, s') \<in> set (rmatch confidence_rx f (p0, None, s0))" by simp
  moreover have "confidence_rx =
     seq ((lit ''CONFIDENCE:'' @ [Spaces 0]) @ [Cap (Rep (InSet [CDigit]) 1 None True)])"
    by (simp add: confidence_rx_def)
  ultimately obtain st where
    "(p', group1 m, s') \<in> set (rmatch (Cap (Rep (InSet [CDigit]) 1 None True)) f st)"
    using seq_last_results by metis
  then obtain cap where "group1 m = Some cap" "1 \<le> length cap"
      "\<forall>c \<in> set cap. atom_match f (InSet [CDigit]) c"
    using cap_rep_results[of p' "group1 m" s' "InSet [CDigit]" 1 None True f "fst st" "fst (snd st)" "snd (snd st)"]
    by auto
  then show ?thesis by (intro exI[of _ cap]) auto
qed

lemma digit_not_space: "isdigit c \<Longrightarrow> \<not> isspace c"
  by (auto simp: isdigit_def isspace_def)

lemma digit_not_sign: "isdigit c \<Longrightarrow> c \<noteq> CHR ''-'' \<and> c \<noteq> CHR ''+''"
  by (auto simp: isdigit_def)

lemma dropWhile_none: "\<forall>c \<in> set s. \<not> P c \<Longrightarrow> dropWhile P s = s"
  by (cases s) simp_all

lemma strip_digits: "\<forall>c \<in> set ds. isdigit c \<Longrightarrow> strip ds = ds"
  by (simp add: strip_def lstrip_def rstrip_def dropWhile_none digit_not_space)

lemma digit_groups_digits:
  "\<forall>c \<in> set ds. isdigit c \<Longrightarrow> digit_groups b ds = (b \<or> ds \<noteq> [])"
  by (induction ds arbitrary: b) simp_all

lemma digits_val_nonneg_aux:
  "0 \<le> acc \<Longrightarrow> 0 \<le> foldl (\<lambda>acc c. 10 * acc + digit_val c) acc ds"
  by (induction ds arbitrary: acc) (simp_all add: digit_val_def)

lemma digits_val_nonneg: "0 \<le> digits_val ds"
  by (simp add: digits_val_def digits_val_nonneg_aux)

lemma py_int_digits:
  assumes "\<forall>c \<in> set ds. isdigit c" and "ds \<noteq> []"
  shows "py_int ds = (if length ds \<le> int_max_str_digits then Inr (digits_val ds) else Inl exceeds_limit)"
proof -
  from assms obtain c cs where ds: "ds = c # cs" by (cases ds) auto
  with assms(1) have c: "isdigit c" by simp
  have f: "filter isdigit ds = ds" using assms(1) by simp
  have "strip ds = c # cs" using strip_digits[OF assms(1)] ds by simp
  then have "py_int ds = py_int_unsigned ds"
    using digit_not_sign[OF c] by (simp add: py_int_def ds)
  also have "\<dots> = (if length ds \<le> int_max_str_digits then Inr (digits_val ds) else Inl exceeds_limit)"
    using assms by (simp add: py_int_unsigned_def digit_groups_digits f del: filter.simps)
  finally show ?thesis .
qed

lemma rep_greedy_first:
  "lo \<le> run \<Longrightarrow> rep_counts lo None True run = run # rev [lo ..< run]"
  by (simp add: rep_counts_def)

lemma search_digits:
  assumes "\<forall>c \<in> set ds. isdigit c" and "ds \<noteq> []"
  shows "\<exists>m. re_search digits_rx f ds = Some m \<and> group0 m = ds"
proof -
  from assms obtain c cs where ds: "ds = c # cs" by (cases ds) auto
  have tw: "takeWhile (atom_match f (InSet [CDigit])) ds = ds" using assms(1) by simp
  have "1 \<le> length ds" using assms(2) by (cases ds) simp_all
  then have "rmatch digits_rx f (None, None, ds) =
     map (\<lambda>k. (fst (advance k None ds), None, snd (advance k None ds)))
       (length ds # rev [1 ..< length ds])"
    by (simp add: digits_rx_def tw rep_greedy_first del: upt_Suc)
  then have "match_at digits_rx f None ds =
     Some \<lparr>group0 = ds, group1 = None, after = []\<rparr>"
    by (simp add: match_at_def snd_advance)
  then show ?thesis by (simp add: re_search_def ds)
qed

lemma parse_confidence_digits:
  assumes "vals ''confidence'' = Some ds" and "\<forall>c \<in> set ds. isdigit c" and "ds \<noteq> []"
  shows "parse_confidence vals =
    (if length ds \<le> int_max_str_digits then Inr (digits_val ds) else Inl exceeds_limit)"
proof (cases "length ds \<le> int_max_str_digits")
  case True
  with assms show ?thesis by (simp add: parse_confidence_def py_int_digits)
next
  case False
  from search_digits[OF assms(2,3)] obtain m where
    "re_search digits_rx no_flags ds = Some m" "group0 m = ds" by blast
  with False assms show ?thesis
    by (simp add: parse_confidence_def py_int_digits exceeds_limit_def)
qed

subsection \<open>What \<open>_parse_block\<close> returns\<close>

text \<open>A block without a match of the \<open>CONSTRUCT\<close> pattern gives \<open>None\<close>; any other block gives
  an instance, unless the digits after \<open>CONFIDENCE:\<close> are more than \<open>int\<close> accepts: the
  \<open>ValueError\<close> of the second \<open>int\<close> then leaves \<open>_parse_block\<close>.\<close>

lemma parse_block_eq:
  "parse_block block d =
     (case re_search construct_rx field_flags block of
        None \<Rightarrow> Inr None
      | Some mc \<Rightarrow>
          (case re_search confidence_rx field_flags block of
             None \<Rightarrow>
               Inr (Some \<lparr>doc_id = (case re_search doc_id_rx field_flags block of
                                       None \<Rightarrow> d | Some m \<Rightarrow> strip (the (group1 m))),
                          speaker_id = (case re_search speaker_id_rx field_flags block of
                                       None \<Rightarrow> [] | Some m \<Rightarrow> strip (the (group1 m))),
                          construct = strip (the (group1 mc)),
                          quote = (case re_search quote_rx field_flags block of
                                       None \<Rightarrow> [] | Some m \<Rightarrow> strip (the (group1 m))),
                          confidence = - 1\<rparr>)
           | Some mk \<Rightarrow>
               if length (the (group1 mk)) \<le> int_max_str_digits then
               Inr (Some \<lparr>doc_id = (case re_search doc_id_rx field_flags block of
                                       None \<Rightarrow> d | Some m \<Rightarrow> strip (the (group1 m))),
                          speaker_id = (case re_search speaker_id_rx field_flags block of
                                       None \<Rightarrow> [] | Some m \<Rightarrow> strip (the (group1 m))),
                          construct = strip (the (group1 mc)),
                          quote = (case re_search quote_rx field_flags block of
                                       None \<Rightarrow> [] | Some m \<Rightarrow> strip (the (group1 m))),
                          confidence = digits_val (the (group1 mk))\<rparr>)
               else Inl exceeds_limit))"
proof -
  from collect_values_total[OF sets_group_patterns] obtain vals where
    vals: "collect_values patterns block Map.empty = Inr vals" by blast
  note fields = collect_values_fields[OF vals]
  show ?thesis
  proof (cases "re_search construct_rx field_flags block")
    case None
    with vals fields(3) show ?thesis by (simp add: parse_block_def)
  next
    case mc: (Some mc)
    show ?thesis
    proof (cases "re_search confidence_rx field_flags block")
      case None
      with fields(5) have "parse_confidence vals = Inr (- 1)" by (simp add: parse_confidence_def)
      with None mc vals fields show ?thesis
        by (simp add: parse_block_def get_or_def split: option.splits)
    next
      case (Some mk)
      from confidence_capture[OF Some] obtain ds where
        ds: "group1 mk = Some ds" "ds \<noteq> []" "\<forall>c \<in> set ds. isdigit c" by blast
      with fields(5) Some have v: "vals ''confidence'' = Some ds" by (simp add: strip_digits)
      have "parse_confidence vals =
         (if length ds \<le> int_max_str_digits then Inr (digits_val ds) else Inl exceeds_limit)"
        using v ds(3,2) by (rule parse_confidence_digits[of vals ds])
      with Some mc vals fields(1-4) ds(1) show ?thesis
        by (simp add: parse_block_def get_or_def split: option.splits)
    qed
  qed
qed

subsection \<open>Where the \<open>CONFIDENCE\<close> pattern matches\<close>

lemma has_label_Nil [simp]: "has_label [] s"
  by (simp add: has_label_def)

lemma has_label_Cons:
  "has_label (x # w) s = (case s of [] \<Rightarrow> False | c # cs \<Rightarrow> lower_char c = lower_char x \<and> has_label w cs)"
  by (cases s) (simp_all add: has_label_def)

lemma rmatch_lit:
  "ignorecase f \<Longrightarrow>
   rmatch (seq (lit w @ rs)) f (p, g, s) =
     (if has_label w s
      then rmatch (seq rs) f (if w = [] then p else Some (s ! (length w - 1)), g, drop (length w) s)
      else [])"
proof (induction w arbitrary: p s)
  case Nil
  then show ?case by (simp add: lit_def)
next
  case (Cons x w)
  show ?case
  proof (cases s)
    case Nil
    then show ?thesis by (simp add: lit_def seq_Cons has_label_Cons)
  next
    case (Cons c cs)
    have "rmatch (seq (lit (x # w) @ rs)) f (p, g, c # cs) =
        (if lower_char c = lower_char x then rmatch (seq (lit w @ rs)) f (Some c, g, cs) else [])"
      using Cons.prems by (simp add: lit_def seq_Cons)
    also have "\<dots> = (if has_label (x # w) (c # cs)
        then rmatch (seq rs) f (Some ((c # cs) ! (length (x # w) - 1)), g, drop (length (x # w)) (c # cs))
        else [])"
      using Cons.IH[OF Cons.prems, of "Some c" cs]
      by (cases w) (simp_all add: has_label_Cons)
    finally show ?thesis using Cons by simp
  qed
qed

lemma run_nth: "k < length (takeWhile P s) \<Longrightarrow> P (s ! k)"
  by (metis nth_mem set_takeWhileD takeWhile_nth)

lemma drop_run: "drop (length (takeWhile P s)) s = dropWhile P s"
  by (induction s) simp_all

lemma concat_Eps: "concat (map (rmatch Eps f) xs) = xs"
  by (induction xs) simp_all

lemma rmatch_seq_single: "rmatch (seq [r]) f st = rmatch r f st"
  by (simp add: seq_Cons seq_Nil concat_Eps)

lemma cap_digits_none:
  "takeWhile isdigit s = [] \<Longrightarrow> rmatch (Cap (Rep (InSet [CDigit]) 1 None True)) f (p, g, s) = []"
proof -
  assume a: "takeWhile isdigit s = []"
  have "takeWhile (atom_match f (InSet [CDigit])) s = takeWhile isdigit s"
    by (rule takeWhile_cong) simp_all
  with a show ?thesis by (simp add: rep_counts_def)
qed

lemma cap_digits_first:
  assumes "takeWhile isdigit s \<noteq> []"
  shows "\<exists>p' rest. rmatch (Cap (Rep (InSet [CDigit]) 1 None True)) f (p, g, s) =
     (p', Some (takeWhile isdigit s), dropWhile isdigit s) # rest"
proof -
  let ?n = "length (takeWhile isdigit s)"
  have tw: "takeWhile (atom_match f (InSet [CDigit])) s = takeWhile isdigit s"
    by (rule takeWhile_cong) simp_all
  from assms have n: "1 \<le> ?n" by (cases "takeWhile isdigit s") simp_all
  have le: "?n \<le> length s" by (rule length_takeWhile_le)
  have "take ?n s = takeWhile isdigit s"
    by (metis append_eq_conv_conj takeWhile_dropWhile_id)
  with le have cap: "take (length s - length (drop ?n s)) s = takeWhile isdigit s" by simp
  have "rmatch (Rep (InSet [CDigit]) 1 None True) f (p, g, s) =
      map (\<lambda>k. (fst (advance k p s), g, snd (advance k p s))) (?n # rev [1 ..< ?n])"
    using n by (simp add: tw rep_greedy_first del: upt_Suc)
  then show ?thesis
    using cap by (simp add: snd_advance drop_run del: upt_Suc)
qed


lemma concat_map_empty: "(\<And>x. x \<in> set xs \<Longrightarrow> F x = []) \<Longrightarrow> concat (map F xs) = []"
  by (induction xs) simp_all

lemma spaces_then_digits:
  "rmatch (seq [Spaces 0, Cap (Rep (InSet [CDigit]) 1 None True)]) f (p, g, s) =
   rmatch (Cap (Rep (InSet [CDigit]) 1 None True)) f
     (fst (advance (length (takeWhile isspace s)) p s), g, dropWhile isspace s)"
proof -
  let ?C = "Cap (Rep (InSet [CDigit]) 1 None True)"
  let ?run = "length (takeWhile isspace s)"
  let ?st = "\<lambda>k. (fst (advance k p s), g, snd (advance k p s))"
  have tw: "takeWhile (atom_match f (InSet [CSpace])) s = takeWhile isspace s"
    by (rule takeWhile_cong) simp_all
  have sp: "rmatch (Spaces 0) f (p, g, s) = map ?st (?run # rev [0 ..< ?run])"
    by (simp add: tw rep_greedy_first del: upt_Suc)
  have none: "rmatch ?C f (?st k) = []" if "k \<in> set (rev [0 ..< ?run])" for k
  proof -
    from that have k: "k < ?run" by simp
    have "?run \<le> length s" by (rule length_takeWhile_le)
    with k have "k < length s" by simp
    then have d: "drop k s = s ! k # drop (Suc k) s" by (simp add: Cons_nth_drop_Suc)
    from run_nth[OF k] have "\<not> isdigit (s ! k)" using digit_not_space by blast
    with d have "takeWhile isdigit (drop k s) = []" by simp
    then show ?thesis
      using cap_digits_none[of "drop k s" f "fst (advance k p s)" g]
      by (simp add: snd_advance del: rmatch.simps)
  qed
  have e: "rmatch (seq [?C]) f = rmatch ?C f"
    by (rule ext) (rule rmatch_seq_single)
  have "rmatch (seq [Spaces 0, ?C]) f (p, g, s) =
      concat (map (rmatch (seq [?C]) f) (rmatch (Spaces 0) f (p, g, s)))"
    by (simp only: seq_Cons rmatch.simps)
  also have "\<dots> = concat (map (rmatch ?C f) (map ?st (?run # rev [0 ..< ?run])))"
    by (simp only: e sp)
  also have "\<dots> = rmatch ?C f (?st ?run) @ concat (map (\<lambda>k. rmatch ?C f (?st k)) (rev [0 ..< ?run]))"
    by (simp only: list.map concat.simps map_map comp_def)
  also have "concat (map (\<lambda>k. rmatch ?C f (?st k)) (rev [0 ..< ?run])) = []"
    by (rule concat_map_empty) (rule none)
  finally have "rmatch (seq [Spaces 0, ?C]) f (p, g, s) = rmatch ?C f (?st ?run)"
    by (simp only: append_Nil2)
  then show ?thesis by (simp only: snd_advance drop_run)
qed

lemma confidence_at:
  assumes "ignorecase f"
  shows "rmatch confidence_rx f (p, g, s) =
     (if has_label ''CONFIDENCE:'' s
      then rmatch (Cap (Rep (InSet [CDigit]) 1 None True)) f
            (fst (advance (length (takeWhile isspace (drop (length ''CONFIDENCE:'') s)))
                   (Some (s ! (length ''CONFIDENCE:'' - 1))) (drop (length ''CONFIDENCE:'') s)), g,
             dropWhile isspace (drop (length ''CONFIDENCE:'') s))
      else [])"
  by (simp only: confidence_rx_def rmatch_lit[OF assms] spaces_then_digits list.distinct if_False)

lemma match_confidence_none:
  assumes "ignorecase f" and "\<not> (has_label ''CONFIDENCE:'' s \<and> digits_after_label s \<noteq> [])"
  shows "match_at confidence_rx f p s = None"
proof (cases "has_label ''CONFIDENCE:'' s")
  case True
  with assms(2) have "takeWhile isdigit (dropWhile isspace (drop (length ''CONFIDENCE:'') s)) = []"
    unfolding digits_after_label_def by blast
  from cap_digits_none[OF this] True have "rmatch confidence_rx f (p, None, s) = []"
    by (simp only: confidence_at[OF assms(1)] if_True)
  then show ?thesis by (simp only: match_at_def list.case)
next
  case False
  then have "rmatch confidence_rx f (p, None, s) = []"
    by (simp only: confidence_at[OF assms(1)] if_False)
  then show ?thesis by (simp only: match_at_def list.case)
qed

lemma match_confidence_some:
  assumes "ignorecase f" and "has_label ''CONFIDENCE:'' s" and "digits_after_label s \<noteq> []"
  shows "\<exists>m. match_at confidence_rx f p s = Some m \<and> group1 m = Some (digits_after_label s)"
proof -
  have "takeWhile isdigit (dropWhile isspace (drop (length ''CONFIDENCE:'') s)) \<noteq> []"
    using assms(3) unfolding digits_after_label_def .
  from cap_digits_first[OF this] assms(2) obtain p' rest where
    "rmatch confidence_rx f (p, None, s) = (p', Some (digits_after_label s),
        dropWhile isdigit (dropWhile isspace (drop (length ''CONFIDENCE:'') s))) # rest"
    by (simp only: confidence_at[OF assms(1)] if_True digits_after_label_def) blast
  then show ?thesis by (simp add: match_at_def del: rmatch.simps)
qed

lemma search_confidence_none:
  assumes "ignorecase f"
  shows "spec_confidence_digits s = [] \<Longrightarrow> search_from confidence_rx f p s = None"
proof (induction s arbitrary: p)
  case Nil
  show ?case using match_confidence_none[OF assms, of "[]"] by (simp add: has_label_Cons)
next
  case (Cons c cs)
  from Cons.prems have a: "\<not> (has_label ''CONFIDENCE:'' (c # cs) \<and> digits_after_label (c # cs) \<noteq> [])"
    and b: "spec_confidence_digits cs = []" by (auto split: if_splits)
  from match_confidence_none[OF assms a] Cons.IH[OF b] show ?case by simp
qed

lemma search_confidence_some:
  assumes "ignorecase f"
  shows "spec_confidence_digits s \<noteq> [] \<Longrightarrow>
    \<exists>m. search_from confidence_rx f p s = Some m \<and> group1 m = Some (spec_confidence_digits s)"
proof (induction s arbitrary: p)
  case Nil
  then show ?case by simp
next
  case (Cons c cs)
  show ?case
  proof (cases "has_label ''CONFIDENCE:'' (c # cs) \<and> digits_after_label (c # cs) \<noteq> []")
    case True
    with match_confidence_some[OF assms, of "c # cs" p] show ?thesis by auto
  next
    case False
    have sc: "spec_confidence_digits (c # cs) = spec_confidence_digits cs"
      unfolding spec_confidence_digits.simps using False by (rule if_not_P)
    with Cons.prems have "spec_confidence_digits cs \<noteq> []" by simp
    from Cons.IH[OF this, of "Some c"] obtain m where
      m: "search_from confidence_rx f (Some c) cs = Some m"
         "group1 m = Some (spec_confidence_digits cs)" by blast
    have "search_from confidence_rx f p (c # cs) = search_from confidence_rx f (Some c) cs"
      using match_confidence_none[OF assms False, of p] by simp
    with m sc show ?thesis by simp
  qed
qed

subsection \<open>The document identifier\<close>

lemma collect_values_doc_id:
  "collect_values patterns block Map.empty = Inr vals \<Longrightarrow>
   vals ''doc_id'' = map_option (\<lambda>m. strip (the (group1 m))) (re_search doc_id_rx field_flags block)"
  unfolding patterns_def
  by (auto split: option.splits)

lemma parse_block_doc_id:
  "parse_block block d = Inr (Some i) \<Longrightarrow>
   doc_id i = (case re_search doc_id_rx field_flags block of
                 None \<Rightarrow> d | Some m \<Rightarrow> strip (the (group1 m)))"
  unfolding parse_block_def
  by (auto simp: get_or_def dest!: collect_values_doc_id split: sum.splits if_splits option.splits)

lemma parse_loop_step:
  "parse_loop (b # bs) d acc = parse_loop bs d acc \<or>
   (\<exists>i. parse_block b d = Inr (Some i) \<and> construct i \<noteq> [] \<and>
        parse_loop (b # bs) d acc =
          parse_loop bs d (acc @ [if d \<noteq> [] then i\<lparr>doc_id := d\<rparr> else i])) \<or>
   (\<exists>e. parse_block b d = Inl e \<and> parse_loop (b # bs) d acc = Inl e)"
proof (cases "parse_block b d")
  case (Inl e)
  then show ?thesis by simp
next
  case (Inr r)
  then show ?thesis by (cases r) simp_all
qed

lemma parse_loop_known_id:
  "parse_loop bs d acc = Inr xs \<Longrightarrow> d \<noteq> [] \<Longrightarrow> \<forall>x \<in> set acc. doc_id x = d \<Longrightarrow>
   \<forall>x \<in> set xs. doc_id x = d"
proof (induction bs arbitrary: acc)
  case Nil
  then show ?case by simp
next
  case (Cons b bs)
  from parse_loop_step[of b bs d acc] Cons.prems(1)
  consider "parse_loop bs d acc = Inr xs"
    | i where "parse_loop bs d (acc @ [if d \<noteq> [] then i\<lparr>doc_id := d\<rparr> else i]) = Inr xs"
    by fastforce
  then show ?case
  proof cases
    case 1
    from Cons.IH[OF this Cons.prems(2,3)] show ?thesis .
  next
    case 2
    show ?thesis
      by (rule Cons.IH[OF 2 Cons.prems(2)]) (use Cons.prems(2,3) in simp)
  qed
qed

lemma parse_loop_no_id:
  "parse_loop bs [] acc = Inr xs \<Longrightarrow> x \<in> set xs \<Longrightarrow>
   x \<in> set acc \<or> (\<exists>b \<in> set bs. parse_block b [] = Inr (Some x))"
proof (induction bs arbitrary: acc)
  case Nil
  then show ?case by simp
next
  case (Cons b bs)
  from parse_loop_step[of b bs "[]" acc] Cons.prems(1)
  consider "parse_loop bs [] acc = Inr xs"
    | i where "parse_block b [] = Inr (Some i)" "parse_loop bs [] (acc @ [i]) = Inr xs"
    by fastforce
  then show ?case
  proof cases
    case 1
    from Cons.IH[OF this Cons.prems(2)] show ?thesis by auto
  next
    case 2
    from Cons.IH[OF 2(2) Cons.prems(2)] 2(1) show ?thesis by auto
  qed
qed

text \<open>
  Claim C1. Every instance that \<open>parse_response\<close> returns for a non-empty known document
  identifier carries that identifier, whatever the block says; for the empty identifier
  the instance is the one \<open>_parse_block\<close> built for some block, and its identifier is the
  stripped text captured by the \<open>DOC_ID\<close> pattern in that block, or the empty string when
  the pattern finds nothing.
\<close>

theorem doc_id_override:
  assumes "parse_response response_text known_doc_id = Inr instances"
      and "x \<in> set instances"
  shows "(known_doc_id \<noteq> [] \<longrightarrow> doc_id x = known_doc_id) \<and>
         (known_doc_id = [] \<longrightarrow>
            (\<exists>block \<in> set (re_split block_split_rx split_flags response_text).
               parse_block block [] = Inr (Some x) \<and>
               doc_id x = (case re_search doc_id_rx field_flags block of
                             None \<Rightarrow> [] | Some m \<Rightarrow> strip (the (group1 m)))))"
proof (cases "known_doc_id = []")
  case True
  with assms have "\<exists>b \<in> set (re_split block_split_rx split_flags response_text).
      parse_block b [] = Inr (Some x)"
    unfolding parse_response_def using parse_loop_no_id[of _ "[]" instances x] by auto
  with True show ?thesis using parse_block_doc_id[of _ "[]" x] by auto
next
  case False
  with assms show ?thesis
    unfolding parse_response_def using parse_loop_known_id[of _ known_doc_id "[]" instances] by auto
qed

theorem doc_id_override_witness:
  "parse_response ''DOC_ID: z\<newline>CONSTRUCT: a'' ''k'' =
     Inr [\<lparr>doc_id = ''k'', speaker_id = [], construct = ''a'', quote = [], confidence = - 1\<rparr>] \<and>
   parse_response ''DOC_ID: z\<newline>CONSTRUCT: a'' [] =
     Inr [\<lparr>doc_id = ''z'', speaker_id = [], construct = ''a'', quote = [], confidence = - 1\<rparr>] \<and>
   re_search doc_id_rx field_flags ''DOC_ID: z\<newline>CONSTRUCT: a'' =
     Some \<lparr>group0 = ''DOC_ID: z'', group1 = Some ''z'', after = ''\<newline>CONSTRUCT: a''\<rparr>"
proof -
  have e1: "parse_response ''DOC_ID: z\<newline>CONSTRUCT: a'' ''k'' =
     Inr [\<lparr>doc_id = ''k'', speaker_id = [], construct = ''a'', quote = [], confidence = - 1\<rparr>]"
    by (simp add: rx_eval parser_eval)
  have e2: "parse_response ''DOC_ID: z\<newline>CONSTRUCT: a'' [] =
     Inr [\<lparr>doc_id = ''z'', speaker_id = [], construct = ''a'', quote = [], confidence = - 1\<rparr>]"
    by (simp add: rx_eval parser_eval)
  have e3: "re_search doc_id_rx field_flags ''DOC_ID: z\<newline>CONSTRUCT: a'' =
     Some \<lparr>group0 = ''DOC_ID: z'', group1 = Some ''z'', after = ''\<newline>CONSTRUCT: a''\<rparr>"
    by (simp add: rx_eval parser_eval)
  from doc_id_override[OF e1] doc_id_override[OF e2] e1 e2 e3 show ?thesis by simp
qed

subsection \<open>The construct\<close>

lemma parse_loop_construct:
  "parse_loop bs d acc = Inr xs \<Longrightarrow> \<forall>x \<in> set acc. construct x \<noteq> [] \<Longrightarrow>
   \<forall>x \<in> set xs. construct x \<noteq> []"
proof (induction bs arbitrary: acc)
  case Nil
  then show ?case by simp
next
  case (Cons b bs)
  from parse_loop_step[of b bs d acc] Cons.prems(1)
  consider "parse_loop bs d acc = Inr xs"
    | i where "construct i \<noteq> []"
        "parse_loop bs d (acc @ [if d \<noteq> [] then i\<lparr>doc_id := d\<rparr> else i]) = Inr xs"
    by fastforce
  then show ?case
  proof cases
    case 1
    from Cons.IH[OF this Cons.prems(2)] show ?thesis .
  next
    case 2
    show ?thesis
      by (rule Cons.IH[OF 2(2)]) (use Cons.prems(2) 2(1) in simp)
  qed
qed

text \<open>
  Claim C2. Every instance that \<open>parse_response\<close> returns has a non-empty construct, and a
  block in which the \<open>CONSTRUCT\<close> pattern matches nowhere gives no instance: \<open>_parse_block\<close>
  returns \<open>None\<close> for it and the loop goes on to the next block with the list unchanged.
\<close>

theorem construct_never_empty:
  "(parse_response response_text d = Inr instances \<longrightarrow>
      (\<forall>x \<in> set instances. construct x \<noteq> [])) \<and>
   (re_search construct_rx field_flags block = None \<longrightarrow>
      parse_block block d = Inr None \<and>
      parse_loop (block # blocks) d acc = parse_loop blocks d acc)"
proof -
  have "parse_block block d = Inr None" if "re_search construct_rx field_flags block = None"
    using that by (simp add: parse_block_eq)
  then show ?thesis
    using parse_loop_construct[of _ d "[]" instances]
    by (auto simp: parse_response_def)
qed

theorem construct_never_empty_witness:
  "parse_response ''CONSTRUCT: a'' [] =
     Inr [\<lparr>doc_id = [], speaker_id = [], construct = ''a'', quote = [], confidence = - 1\<rparr>] \<and>
   re_search construct_rx field_flags ''QUOTE: q'' = None \<and>
   parse_block ''QUOTE: q'' [] = Inr None \<and>
   parse_response ''QUOTE: q'' [] = Inr []"
proof -
  have e1: "parse_response ''CONSTRUCT: a'' [] =
     Inr [\<lparr>doc_id = [], speaker_id = [], construct = ''a'', quote = [], confidence = - 1\<rparr>]"
    by (simp add: rx_eval parser_eval)
  have e2: "re_search construct_rx field_flags ''QUOTE: q'' = None"
    by (simp add: rx_eval parser_eval)
  have e3: "parse_response ''QUOTE: q'' [] = Inr []"
    by (simp add: rx_eval parser_eval)
  from construct_never_empty[of "''CONSTRUCT: a''" "[]" _ "''QUOTE: q''" "[]" "[]"] e1 e2 e3
  show ?thesis by simp
qed

end
